theory Spec2Isabelle
  imports Main "HOL-Library.Sublist"
begin

section \<open>The crawler of \<^verbatim>\<open>src/main.py\<close>\<close>

subsection \<open>Errors, capabilities and state\<close>

text \<open>
  An exception caught by \<^verbatim>\<open>except Exception as e\<close> is a value carrying \<^verbatim>\<open>str(e)\<close>,
  the only thing the handler reads.
\<close>

datatype error = Exception string

fun str_of :: "error \<Rightarrow> string" where
  "str_of (Exception msg) = msg"

text \<open>
  What \<^verbatim>\<open>crawl\<close> calls outside the class: \<^verbatim>\<open>requests.get(url).text\<close>; the parser
  (\<^verbatim>\<open>BeautifulSoup(..., 'html.parser')\<close>, then \<^verbatim>\<open>get_text()\<close> and the \<^verbatim>\<open>href\<close> attribute,
  \<^verbatim>\<open>None\<close> when absent, of every \<^verbatim>\<open>a\<close> element in document order);
  \<^verbatim>\<open>urlparse(href).netloc\<close>; \<^verbatim>\<open>urljoin(url, href)\<close>. Each may raise.
\<close>

record env =
  requests_get :: "string \<Rightarrow> error + string"
  soup_parse :: "string \<Rightarrow> error + string \<times> string option list"
  urlparse_netloc :: "string \<Rightarrow> error + string"
  urljoin :: "string \<Rightarrow> string \<Rightarrow> error + string"

text \<open>
  \<^verbatim>\<open>trace\<close> is a ghost field: it records, in order, every \<^verbatim>\<open>self.visited.add(url)\<close>
  and every call of \<^verbatim>\<open>requests.get(url)\<close> (what the tests read off \<^verbatim>\<open>mock_get\<close>).
  \<^verbatim>\<open>index\<close> is an insertion-ordered dictionary, \<^verbatim>\<open>stdout\<close> the lines printed so far.
\<close>

datatype event = Visit string | Fetch string

record crawler =
  index :: "(string \<times> string) list"
  visited :: "string set"
  stdout :: "string list"
  trace :: "event list"

definition init :: crawler where
  "init = \<lparr>index = [], visited = {}, stdout = [], trace = []\<rparr>"

text \<open>\<^verbatim>\<open>d[k] = v\<close> on a Python dict: an existing key keeps its position, a new key goes last.\<close>

fun setitem :: "string \<Rightarrow> string \<Rightarrow> (string \<times> string) list \<Rightarrow> (string \<times> string) list" where
  "setitem k v [] = [(k, v)]"
| "setitem k v ((k', v') # d) = (if k' = k then (k, v) # d else (k', v') # setitem k v d)"

text \<open>The URLs visited and the URLs fetched, in order, as a trace records them.\<close>

definition visits :: "event list \<Rightarrow> string list" where
  "visits es = concat (map (\<lambda>e. case e of Visit u \<Rightarrow> [u] | Fetch u \<Rightarrow> []) es)"

definition fetched :: "event list \<Rightarrow> string list" where
  "fetched es = concat (map (\<lambda>e. case e of Fetch u \<Rightarrow> [u] | Visit u \<Rightarrow> []) es)"

definition fetches :: "crawler \<Rightarrow> string list" where
  "fetches s = fetched (trace s)"

subsection \<open>\<^verbatim>\<open>crawl\<close>\<close>

text \<open>Line 39: \<^verbatim>\<open>print(f"Error crawling {url}: {e}")\<close>.\<close>

definition report :: "string \<Rightarrow> error \<Rightarrow> crawler \<Rightarrow> crawler" where
  "report url e s = s\<lparr>stdout := stdout s @ [''Error crawling '' @ url @ '': '' @ str_of e]\<rparr>"

text \<open>Lines 29--32.\<close>

definition full_url :: "env \<Rightarrow> string \<Rightarrow> string \<Rightarrow> error + string" where
  "full_url E url href =
     (case urlparse_netloc E href of
        Inl e \<Rightarrow> Inl e
      | Inr netloc \<Rightarrow> if netloc = [] then urljoin E url href else Inr href)"

text \<open>Line 35, \<^verbatim>\<open>base_url or url\<close>: \<^verbatim>\<open>None\<close> and the empty string are both falsy.\<close>

definition scope_base :: "string option \<Rightarrow> string \<Rightarrow> string" where
  "scope_base base_url url =
     (case base_url of None \<Rightarrow> url | Some b \<Rightarrow> if b = [] then url else b)"

text \<open>
  Lines 18 and 21: \<^verbatim>\<open>self.visited.add(url)\<close>, then the call of \<^verbatim>\<open>requests.get(url)\<close>
  (its outcome is read from the environment; here only the fact of the call is recorded).
\<close>

definition enter :: "string \<Rightarrow> crawler \<Rightarrow> crawler" where
  "enter url s = s\<lparr>visited := insert url (visited s), trace := trace s @ [Visit url, Fetch url]\<rparr>"

text \<open>Line 23: \<^verbatim>\<open>self.index[url] = soup.get_text()\<close>.\<close>

definition store :: "string \<Rightarrow> string \<Rightarrow> crawler \<Rightarrow> crawler" where
  "store url text s = s\<lparr>index := setitem url text (index s)\<rparr>"

text \<open>
  The recursion of \<^verbatim>\<open>crawl\<close> need not end (a site may link to fresh URLs for ever), so
  the model takes fuel: the number of nested \<^verbatim>\<open>crawl\<close> frames allowed; \<^verbatim>\<open>None\<close> is
  "fuel exhausted". \<^verbatim>\<open>crawl_links\<close> is the \<^verbatim>\<open>for\<close> loop of lines 25--37 over the
  remaining anchors; it returns the exception that left the loop, if any, with the state
  reached, for the handler of line 38.
\<close>

fun crawl :: "nat \<Rightarrow> env \<Rightarrow> string \<Rightarrow> string option \<Rightarrow> crawler \<Rightarrow> crawler option"
and crawl_links :: "nat \<Rightarrow> env \<Rightarrow> string \<Rightarrow> string option \<Rightarrow> string option list \<Rightarrow> crawler
                    \<Rightarrow> (error option \<times> crawler) option" where
  "crawl 0 E url base_url s = None"
| "crawl (Suc n) E url base_url s =
     (if url \<in> visited s then Some s
      else
        case requests_get E url of
          Inl e \<Rightarrow> Some (report url e (enter url s))
        | Inr body \<Rightarrow>
            (case soup_parse E body of
               Inl e \<Rightarrow> Some (report url e (enter url s))
             | Inr (text, links) \<Rightarrow>
                 (case crawl_links n E url base_url links (store url text (enter url s)) of
                    None \<Rightarrow> None
                  | Some (None, s2) \<Rightarrow> Some s2
                  | Some (Some e, s2) \<Rightarrow> Some (report url e s2))))"
| "crawl_links n E url base_url [] s = Some (None, s)"
| "crawl_links n E url base_url (link # links) s =
     (case link of
        None \<Rightarrow> crawl_links n E url base_url links s
      | Some href \<Rightarrow>
          if href = [] then crawl_links n E url base_url links s
          else (case full_url E url href of
                  Inl e \<Rightarrow> Some (Some e, s)
                | Inr full \<Rightarrow>
                    if prefix (scope_base base_url url) full
                    then (case crawl n E full (Some (scope_base base_url url)) s of
                            None \<Rightarrow> None
                          | Some s' \<Rightarrow> crawl_links n E url base_url links s')
                    else crawl_links n E url base_url links s))"

subsection \<open>\<^verbatim>\<open>search\<close> and \<^verbatim>\<open>print_results\<close>\<close>

text \<open>\<^verbatim>\<open>str.lower()\<close> on ASCII text: the letters A--Z move to a--z, every other character stays.\<close>

definition lower_char :: "char \<Rightarrow> char" where
  "lower_char c =
     (if (65::nat) \<le> of_char c \<and> of_char c \<le> (90::nat) then char_of (of_char c + (32::nat)) else c)"

definition lower :: "string \<Rightarrow> string" where
  "lower s = map lower_char s"

text \<open>\<^verbatim>\<open>needle in hay\<close> on strings.\<close>

fun contains :: "string \<Rightarrow> string \<Rightarrow> bool" where
  "contains [] needle = (needle = [])"
| "contains (c # hay) needle = (prefix needle (c # hay) \<or> contains hay needle)"

text \<open>The loop of lines 43--45, with \<^verbatim>\<open>results\<close> as accumulator.\<close>

fun search_loop :: "string \<Rightarrow> (string \<times> string) list \<Rightarrow> string list \<Rightarrow> string list" where
  "search_loop keyword [] results = results"
| "search_loop keyword ((url, text) # items) results =
     search_loop keyword items
       (if contains (lower text) (lower keyword) then results @ [url] else results)"

definition search :: "crawler \<Rightarrow> string \<Rightarrow> string list" where
  "search s keyword = search_loop keyword (index s) []"

fun print_loop :: "string list \<Rightarrow> string list \<Rightarrow> string list" where
  "print_loop [] out = out"
| "print_loop (result # results) out = print_loop results (out @ [''- '' @ result])"

definition print_results :: "string list \<Rightarrow> crawler \<Rightarrow> crawler" where
  "print_results results s =
     (if results \<noteq> [] then s\<lparr>stdout := print_loop results (stdout s @ [''Search results:''])\<rparr>
      else s\<lparr>stdout := stdout s @ [''No results found.'']\<rparr>)"

subsection \<open>Well-formed traces\<close>

text \<open>
  \<^verbatim>\<open>replay\<close> runs a trace from a set of visited and a set of fetched URLs and fails when
  a URL is added to the visited set a second time, or is fetched before it was added
  or a second time. A state is consistent when its trace replays from nothing to its
  visited set.
\<close>

fun replay :: "event list \<Rightarrow> string set \<times> string set \<Rightarrow> (string set \<times> string set) option" where
  "replay [] st = Some st"
| "replay (Visit u # es) (V, F) = (if u \<in> V then None else replay es (insert u V, F))"
| "replay (Fetch u # es) (V, F) = (if u \<in> V \<and> u \<notin> F then replay es (V, insert u F) else None)"

definition trace_ok :: "crawler \<Rightarrow> bool" where
  "trace_ok s = (case replay (trace s) ({}, {}) of None \<Rightarrow> False | Some (V, F) \<Rightarrow> V = visited s)"

subsection \<open>Example environments\<close>

text \<open>
  The environment of \<^verbatim>\<open>test_crawl_error_handling\<close>: every \<^verbatim>\<open>requests.get\<close> raises
  \<^verbatim>\<open>RequestException("Test Error")\<close>; and the state that test ends in.
\<close>

definition failing_env :: env where
  "failing_env = \<lparr>requests_get = (\<lambda>url. Inl (Exception ''Test Error'')),
     soup_parse = (\<lambda>body. Inr (body, [])),
     urlparse_netloc = (\<lambda>href. Inr []),
     urljoin = (\<lambda>base href. Inr href)\<rparr>"

definition after_failure :: crawler where
  "after_failure = \<lparr>index = [], visited = {''https://example.com''},
     stdout = [''Error crawling https://example.com: Test Error''],
     trace = [Visit ''https://example.com'', Fetch ''https://example.com'']\<rparr>"

section \<open>Properties\<close>

subsection \<open>An induction principle for state relations\<close>

text \<open>
  Whatever relation between states is reflexive, transitive, and holds across the three
  primitive state changes of \<^verbatim>\<open>crawl\<close>, holds between the state before and after a call.
\<close>

lemma crawl_rel:
  assumes refl: "\<And>s. R s s"
    and trans: "\<And>s s' s''. R s s' \<Longrightarrow> R s' s'' \<Longrightarrow> R s s''"
    and ent: "\<And>url s. url \<notin> visited s \<Longrightarrow> R s (enter url s)"
    and rep: "\<And>url e s. R s (report url e s)"
    and sto: "\<And>url text s. url \<in> visited s \<Longrightarrow> R s (store url text s)"
  shows "crawl n E url base_url s = Some s' \<Longrightarrow> R s s'"
    and "crawl_links n E url base_url links s = Some (r, s') \<Longrightarrow> R s s'"
proof (induction n E url base_url s and n E url base_url links s arbitrary: s' and r s'
    rule: crawl_crawl_links.induct)
  case (1 E url base_url s)
  then show ?case by simp
next
  case (2 n E url base_url s)
  have v: "url \<in> visited (enter url s)" by (simp add: enter_def)
  show ?case
  proof (cases "url \<in> visited s")
    case True
    with 2 show ?thesis by (simp add: refl)
  next
    case nv: False
    show ?thesis
    proof (cases "requests_get E url")
      case (Inl e)
      with 2 nv show ?thesis by (auto intro: trans [OF ent rep])
    next
      case (Inr body)
      show ?thesis
      proof (cases "soup_parse E body")
        case (Inl e)
        with 2 nv Inr show ?thesis by (auto intro: trans [OF ent rep])
      next
        case (Inr p)
        obtain tx links where p: "p = (tx, links)" by (cases p)
        from "2.prems" nv \<open>requests_get E url = Inr body\<close> Inr p
        obtain r s2 where
          l: "crawl_links n E url base_url links (store url tx (enter url s)) = Some (r, s2)"
          and s': "s' = (case r of None \<Rightarrow> s2 | Some e \<Rightarrow> report url e s2)"
          by (auto split: option.splits)
        have "R (store url tx (enter url s)) s2"
          using "2.IH" [OF nv \<open>requests_get E url = Inr body\<close> Inr p [symmetric] l] .
        then have "R s s2"
          using trans [OF trans [OF ent [OF nv] sto [OF v]]] by blast
        then show ?thesis
          unfolding s' by (cases r) (auto intro: trans rep)
      qed
    qed
  qed
next
  case (3 n E url base_url s)
  then show ?case by (simp add: refl)
next
  case (4 n E url base_url link links s)
  show ?case
  proof (cases link)
    case None
    with 4 show ?thesis by simp
  next
    case (Some href)
    show ?thesis
    proof (cases "href = []")
      case True
      with 4 Some show ?thesis by simp
    next
      case ne: False
      show ?thesis
      proof (cases "full_url E url href")
        case (Inl e)
        with "4.prems" Some ne show ?thesis by (simp add: refl)
      next
        case (Inr full)
        show ?thesis
        proof (cases "prefix (scope_base base_url url) full")
          case True
          from "4.prems" Some ne Inr True obtain s1 where
            c: "crawl n E full (Some (scope_base base_url url)) s = Some s1"
            and l: "crawl_links n E url base_url links s1 = Some (r, s')"
            by (auto split: option.splits)
          from "4.IH"(3) [OF Some ne Inr True c] "4.IH"(4) [OF Some ne Inr True c l]
          show ?thesis by (rule trans)
        next
          case False
          with 4 Some ne Inr show ?thesis by simp
        qed
      qed
    qed
  qed
qed

subsection \<open>Traces\<close>

lemma replay_append:
  "replay (xs @ ys) st = (case replay xs st of None \<Rightarrow> None | Some st' \<Rightarrow> replay ys st')"
proof (induction xs st rule: replay.induct)
  case (1 st)
  then show ?case by simp
next
  case (2 u es V F)
  then show ?case by simp
next
  case (3 u es V F)
  then show ?case by simp
qed

lemma replay_sub:
  "replay xs (V, F) = Some (V', F') \<Longrightarrow> F \<subseteq> V \<Longrightarrow> F' \<subseteq> V'"
  by (induction xs "(V, F)" arbitrary: V F rule: replay.induct) (auto split: if_splits)

lemma replay_fetched:
  "replay xs (V, F) = Some (V', F') \<Longrightarrow>
     distinct (fetched xs) \<and> set (fetched xs) \<inter> F = {} \<and> F' = F \<union> set (fetched xs)"
  by (induction xs "(V, F)" arbitrary: V F rule: replay.induct)
    (auto simp: fetched_def split: if_splits)

lemma trace_ok_enter:
  assumes "trace_ok s" and "url \<notin> visited s"
  shows "trace_ok (enter url s)"
proof -
  from assms(1) obtain F where r: "replay (trace s) ({}, {}) = Some (visited s, F)"
    by (auto simp: trace_ok_def split: option.splits)
  from replay_sub [OF r] have "F \<subseteq> visited s" by simp
  with assms(2) have "url \<notin> F" by blast
  with r assms(2) show ?thesis
    by (simp add: trace_ok_def enter_def replay_append)
qed

lemma trace_ok_report [simp]: "trace_ok (report url e s) = trace_ok s"
  by (simp add: trace_ok_def report_def split: option.splits)

lemma trace_ok_store [simp]: "trace_ok (store url tx s) = trace_ok s"
  by (simp add: trace_ok_def store_def split: option.splits)

lemma trace_ok_crawl:
  "crawl n E url base_url s = Some s' \<Longrightarrow> trace_ok s \<Longrightarrow> trace_ok s'"
  by (rule crawl_rel(1) [where R = "\<lambda>s s'. trace_ok s \<longrightarrow> trace_ok s'", rule_format])
    (simp_all add: trace_ok_enter)

lemma replay_visits:
  "replay xs (V, F) = Some (V', F') \<Longrightarrow>
     distinct (visits xs) \<and> set (visits xs) \<inter> V = {} \<and> V' = V \<union> set (visits xs)"
  by (induction xs "(V, F)" arbitrary: V F rule: replay.induct)
    (auto simp: visits_def split: if_splits)

lemma fetch_after_visit:
  assumes "replay (pre @ Fetch u # post) (V, F) = Some st"
  shows "u \<in> V \<union> set (visits pre)"
proof -
  from assms obtain V1 F1 where r: "replay pre (V, F) = Some (V1, F1)" and u: "u \<in> V1"
    by (auto simp: replay_append split: option.splits if_splits)
  from replay_visits [OF r] u show ?thesis by simp
qed

lemma crawl_failing:
  "crawl (Suc 0) failing_env ''https://example.com'' None init = Some after_failure"
  by (simp add: failing_env_def init_def enter_def report_def after_failure_def)

lemma trace_ok_init: "trace_ok init"
  by (simp add: trace_ok_def init_def)

lemma trace_ok_after_failure: "trace_ok after_failure"
  by (simp add: trace_ok_def after_failure_def)

section \<open>The claims\<close>

text \<open>
  C1. Starting from a consistent state, after any call of \<^verbatim>\<open>crawl\<close> that returns, every
  URL was added to the visited set at most once, the URLs added are exactly the visited
  set, \<^verbatim>\<open>requests.get\<close> was called at most once per URL, and each call for a URL comes
  after that URL was added. A call on a URL already in the visited set returns at once
  with the state unchanged: nothing fetched, nothing mutated.
\<close>

theorem visit_once_fetch_once:
  "(trace_ok s \<and> crawl n E url base_url s = Some s' \<longrightarrow>
      distinct (visits (trace s')) \<and> set (visits (trace s')) = visited s' \<and>
      distinct (fetches s') \<and>
      (\<forall>pre u post. trace s' = pre @ Fetch u # post \<longrightarrow> u \<in> set (visits pre)))
   \<and> (url \<in> visited s \<longrightarrow> crawl (Suc n) E url base_url s = Some s)"
proof (intro conjI impI)
  assume a: "trace_ok s \<and> crawl n E url base_url s = Some s'"
  then have "trace_ok s'" using trace_ok_crawl by blast
  then obtain F where r: "replay (trace s') ({}, {}) = Some (visited s', F)"
    by (auto simp: trace_ok_def split: option.splits)
  from replay_visits [OF r] show "distinct (visits (trace s'))"
    and "set (visits (trace s')) = visited s'" by simp_all
  from replay_fetched [OF r] show "distinct (fetches s')" by (simp add: fetches_def)
  show "\<forall>pre u post. trace s' = pre @ Fetch u # post \<longrightarrow> u \<in> set (visits pre)"
  proof (intro allI impI)
    fix pre u post
    assume "trace s' = pre @ Fetch u # post"
    with r have "replay (pre @ Fetch u # post) ({}, {}) = Some (visited s', F)" by simp
    from fetch_after_visit [OF this] show "u \<in> set (visits pre)" by simp
  qed
next
  assume "url \<in> visited s"
  then show "crawl (Suc n) E url base_url s = Some s" by simp
qed

theorem visit_once_fetch_once_witness:
  "trace_ok init \<and> crawl (Suc 0) failing_env ''https://example.com'' None init = Some after_failure
   \<and> distinct (fetches after_failure)
   \<and> ''https://example.com'' \<in> visited after_failure
   \<and> crawl (Suc 0) failing_env ''https://example.com'' None after_failure = Some after_failure"
  using visit_once_fetch_once [of init "Suc 0" failing_env "''https://example.com''" None after_failure]
    visit_once_fetch_once [of after_failure 0 failing_env "''https://example.com''" None after_failure]
    trace_ok_init crawl_failing
  by (simp add: after_failure_def)

end
